theory Spec2Isabelle
  imports Complex_Main "HOL-Library.Multiset"
begin

section \<open>Pulse rate variability metrics of \<open>PRV/prv.py\<close>\<close>

text \<open>
  The module computes time-domain PRV metrics of an inter-beat-interval series. The arrays
  \<open>time\<close> and \<open>data\<close> are numpy arrays of floats; they are modelled as lists of reals,
  so rounding is idealised away. Python integers are \<open>int\<close>, an exception raised by
  Python is the left injection of a sum.
\<close>

datatype py_error = ZeroDivisionError

subsection \<open>Reducers\<close>

text \<open>
  \<open>rmssd\<close>: the loop \<open>for i in range(1, len(ibi))\<close> adds the squared successive
  differences; the root is taken only when the sum is positive.
\<close>

definition rmssd_sum :: "real list \<Rightarrow> real" where
  "rmssd_sum ibi =
     fold (\<lambda>i sum'. sum' + ((ibi ! i - ibi ! (i - 1)) * (ibi ! i - ibi ! (i - 1))))
       [1..<length ibi] 0"

definition rmssd :: "real list \<Rightarrow> real" where
  "rmssd ibi =
     (let sum' = rmssd_sum ibi
      in if sum' > 0 then sqrt (sum' / real_of_int (int (length ibi) - 1)) else 0)"

text \<open>
  \<open>sdnn\<close> returns what \<open>np.std\<close> returns. \<open>np.std\<close> is numpy's
  routine on float64 arrays and no code of this module, so it is a parameter of the model.
\<close>

definition sdnn :: "(real list \<Rightarrow> real) \<Rightarrow> real list \<Rightarrow> real" where
  "sdnn np_std ibi = np_std ibi"

text \<open>
  \<open>nn50\<close>: the counter is a Python integer, raised by one at every index \<open>i\<close> with
  \<open>ibi[i] - ibi[i-1] > 0.05\<close>.
\<close>

definition nn50 :: "real list \<Rightarrow> int" where
  "nn50 ibi =
     fold (\<lambda>i nn50'. if ibi ! i - ibi ! (i - 1) > 0.05 then nn50' + 1 else nn50')
       [1..<length ibi] 0"

text \<open>
  \<open>pnn50\<close>: a true division of two Python integers, which raises
  \<open>ZeroDivisionError\<close> when \<open>len(ibi)\<close> is 0.
\<close>

definition pnn50 :: "real list \<Rightarrow> py_error + real" where
  "pnn50 ibi =
     (if length ibi = 0 then Inl ZeroDivisionError
      else Inr (real_of_int (nn50 ibi * 100) / real (length ibi)))"

text \<open>
  \<open>hrMaxMin\<close>: the running maximum starts at 0 and the running minimum at 1000.
  Intervals are positive in the data model; at a zero interval numpy's \<open>60 / ibi[i]\<close>
  is infinite, so the model is meant for non-zero intervals.
\<close>

definition hrMaxMin_step :: "real list \<Rightarrow> nat \<Rightarrow> real \<times> real \<Rightarrow> real \<times> real" where
  "hrMaxMin_step ibi i = (\<lambda>(hrmax, hrmin).
     (let hr = 60 / ibi ! i;
          hrmax' = (if hr > hrmax then hr else hrmax);
          hrmin' = (if hr < hrmin then hr else hrmin)
      in (hrmax', hrmin')))"

definition hrMaxMin :: "real list \<Rightarrow> real" where
  "hrMaxMin ibi =
     (case fold (hrMaxMin_step ibi) [0..<length ibi] (0, 1000) of
        (hrmax, hrmin) \<Rightarrow> hrmax - hrmin)"

subsection \<open>Slices\<close>

text \<open>
  \<open>data[a:b]\<close> on a one-dimensional array: a negative bound counts from the end, and
  both bounds are clipped to the array, so a slice never raises.
\<close>

definition py_slice :: "'a list \<Rightarrow> int \<Rightarrow> int \<Rightarrow> 'a list" where
  "py_slice xs a b =
     (let n = int (length xs);
          lo = (if a < 0 then max (a + n) 0 else min a n);
          hi = (if b < 0 then max (b + n) 0 else min b n)
      in take (nat (hi - lo)) (drop (nat lo) xs))"

subsection \<open>The windowing engine\<close>

text \<open>
  The local variables of \<open>chunckData\<close>: the index of the window's first sample and
  the three lists the loop appends to.
\<close>

record 'v chunck_state =
  start_index :: nat
  values' :: "'v list"
  start_time :: "real list"
  end_time :: "real list"

text \<open>The data frame \<open>chunckData\<close> returns, by its columns.\<close>

record 'v frame =
  startTime :: "real list"
  endTime :: "real list"
  values_col :: "'v list"

text \<open>
  The body of \<open>for t in range(0, len(time))\<close>. The reducer \<open>operation\<close> may raise,
  and then the whole call does.
\<close>

definition chunck_step ::
  "real list \<Rightarrow> real list \<Rightarrow> real \<Rightarrow> (real list \<Rightarrow> py_error + 'v) \<Rightarrow>
   'v chunck_state \<Rightarrow> nat \<Rightarrow> py_error + 'v chunck_state" where
  "chunck_step time data window_size operation s t =
     (if time ! t - time ! start_index s \<ge> window_size then
        (if length (py_slice data (int (start_index s)) (int t - 1)) > 0 then
           (case operation (py_slice data (int (start_index s)) (int t - 1)) of
              Inl e \<Rightarrow> Inl e
            | Inr operation' \<Rightarrow>
                Inr (s\<lparr>values' := values' s @ [operation'],
                       start_time := start_time s @ [time ! start_index s],
                       end_time := end_time s @ [time ! t],
                       start_index := t\<rparr>))
         else Inr (s\<lparr>start_index := t\<rparr>))
      else Inr s)"

fun chunck_loop ::
  "real list \<Rightarrow> real list \<Rightarrow> real \<Rightarrow> (real list \<Rightarrow> py_error + 'v) \<Rightarrow>
   'v chunck_state \<Rightarrow> nat list \<Rightarrow> py_error + 'v chunck_state" where
  "chunck_loop time data window_size operation s [] = Inr s"
| "chunck_loop time data window_size operation s (t # ts) =
     (case chunck_step time data window_size operation s t of
        Inl e \<Rightarrow> Inl e
      | Inr s' \<Rightarrow> chunck_loop time data window_size operation s' ts)"

definition chunck_init :: "'v chunck_state" where
  "chunck_init = \<lparr>start_index = 0, values' = [], start_time = [], end_time = []\<rparr>"

definition chunckData ::
  "real list \<Rightarrow> real list \<Rightarrow> real \<Rightarrow> (real list \<Rightarrow> py_error + 'v) \<Rightarrow> py_error + 'v frame" where
  "chunckData time data window_size operation =
     (case chunck_loop time data window_size operation chunck_init [0..<length time] of
        Inl e \<Rightarrow> Inl e
      | Inr s \<Rightarrow>
          Inr \<lparr>startTime = start_time s, endTime = end_time s, values_col = values' s\<rparr>)"

text \<open>A reducer that never raises, as an operation of the engine.\<close>

definition returns :: "('a \<Rightarrow> 'v) \<Rightarrow> 'a \<Rightarrow> py_error + 'v" where
  "returns f x = Inr (f x)"

subsection \<open>Entry points\<close>

definition getRMSSD :: "real list \<Rightarrow> real list \<Rightarrow> py_error + real frame" where
  "getRMSSD time data = chunckData time data 60 (returns rmssd)"

definition getHRMaxMin :: "real list \<Rightarrow> real list \<Rightarrow> py_error + real frame" where
  "getHRMaxMin time data = chunckData time data 120 (returns hrMaxMin)"

definition getNN50 :: "real list \<Rightarrow> real list \<Rightarrow> py_error + int frame" where
  "getNN50 time data = chunckData time data 120 (returns nn50)"

definition getPNN50 :: "real list \<Rightarrow> real list \<Rightarrow> py_error + real frame" where
  "getPNN50 time data = chunckData time data 120 pnn50"

definition getSDNN ::
  "(real list \<Rightarrow> real) \<Rightarrow> real list \<Rightarrow> real list \<Rightarrow> py_error + real frame" where
  "getSDNN np_std time data = chunckData time data 60 (returns (sdnn np_std))"

subsection \<open>The specification's vocabulary\<close>

text \<open>
  A record of the output: window start, window end, value. A sequence of records is the
  frame with these three columns.
\<close>

type_synonym 'v MetricRecord = "real \<times> real \<times> 'v"

definition frame_of :: "'v MetricRecord list \<Rightarrow> 'v frame" where
  "frame_of rs =
     \<lparr>startTime = map fst rs, endTime = map (fst \<circ> snd) rs, values_col = map (snd \<circ> snd) rs\<rparr>"

text \<open>
  A valid input of the engine, as the data model has it: index-aligned sequences,
  non-decreasing timestamps, positive intervals, a positive window size.
\<close>

definition valid_input :: "real list \<Rightarrow> real list \<Rightarrow> real \<Rightarrow> bool" where
  "valid_input timestamps intervals windowSizeSeconds \<longleftrightarrow>
     length timestamps = length intervals \<and> sorted timestamps \<and>
     list_all (\<lambda>x. 0 < x) intervals \<and> 0 < windowSizeSeconds"

text \<open>
  The algorithm of the specification, in its words: scan the positions; when the elapsed
  time since the window's first sample reaches the window size, the slice is the
  intervals at the positions from \<open>windowStartIndex\<close> up to, not including,
  \<open>t - 1\<close>; a record is emitted when the slice is not empty; the window start
  advances to \<open>t\<close> either way.
\<close>

fun chunk_scan ::
  "real list \<Rightarrow> real list \<Rightarrow> real \<Rightarrow> (real list \<Rightarrow> 'v) \<Rightarrow> nat \<Rightarrow> nat list \<Rightarrow>
   'v MetricRecord list" where
  "chunk_scan timestamps intervals w reduce windowStartIndex [] = []"
| "chunk_scan timestamps intervals w reduce windowStartIndex (t # rest) =
     (if timestamps ! t - timestamps ! windowStartIndex \<ge> w then
        (let slice = map (\<lambda>i. intervals ! i) [windowStartIndex..<t - 1]
         in (if slice \<noteq> []
             then [(timestamps ! windowStartIndex, timestamps ! t, reduce slice)]
             else [])
            @ chunk_scan timestamps intervals w reduce t rest)
      else chunk_scan timestamps intervals w reduce windowStartIndex rest)"

definition chunk_spec ::
  "real list \<Rightarrow> real list \<Rightarrow> real \<Rightarrow> (real list \<Rightarrow> 'v) \<Rightarrow> 'v MetricRecord list" where
  "chunk_spec timestamps intervals w reduce =
     chunk_scan timestamps intervals w reduce 0 [0..<length timestamps]"

text \<open>
  NN50 in the specification's words: the number of adjacent pairs that differ by more
  than 0.05 seconds.
\<close>

definition nn50_spec :: "real list \<Rightarrow> int" where
  "nn50_spec x = int (length (filter (\<lambda>i. \<bar>x ! i - x ! (i - 1)\<bar> > 0.05) [1..<length x]))"

subsection \<open>The loop, by its window indices\<close>

text \<open>
  Two functions that follow the loop of \<open>chunckData\<close> without its reducer: the value
  of \<open>start_index\<close> it ends with, and the pairs (\<open>start_index\<close>, \<open>t\<close>) at
  which it appends a record.
\<close>

fun scan_end :: "real list \<Rightarrow> real \<Rightarrow> nat \<Rightarrow> nat list \<Rightarrow> nat" where
  "scan_end time window_size ws [] = ws"
| "scan_end time window_size ws (t # rest) =
     (if time ! t - time ! ws \<ge> window_size then scan_end time window_size t rest
      else scan_end time window_size ws rest)"

fun closed_windows ::
  "real list \<Rightarrow> real list \<Rightarrow> real \<Rightarrow> nat \<Rightarrow> nat list \<Rightarrow> (nat \<times> nat) list" where
  "closed_windows time data window_size ws [] = []"
| "closed_windows time data window_size ws (t # rest) =
     (if time ! t - time ! ws \<ge> window_size then
        (if py_slice data (int ws) (int t - 1) \<noteq> [] then [(ws, t)] else [])
        @ closed_windows time data window_size t rest
      else closed_windows time data window_size ws rest)"

section \<open>Properties of the reducers\<close>

subsection \<open>The counting loop of \<open>nn50\<close>\<close>

lemma fold_count_bounds:
  "c \<le> fold (\<lambda>i n. if P i then n + 1 else n) js (c::int) \<and>
   fold (\<lambda>i n. if P i then n + 1 else n) js c \<le> c + int (length js)"
proof (induction js arbitrary: c)
  case Nil
  show ?case by simp
next
  case (Cons j js)
  show ?case using Cons.IH [of "c + 1"] Cons.IH [of c] by auto
qed

lemma nn50_bounds: "0 \<le> nn50 ibi \<and> nn50 ibi \<le> int (length ibi - 1)"
  unfolding nn50_def
  using fold_count_bounds [of 0 "\<lambda>i. ibi ! i - ibi ! (i - 1) > 0.05" "[1..<length ibi]"]
  by simp

text \<open>
  C10. On a non-empty interval sequence \<open>pnn50\<close> returns a value, and the value is at
  least 0 and below 100: \<open>nn50\<close> counts at most \<open>n - 1\<close> adjacent pairs and the
  count is scaled by \<open>100 / n\<close>.
\<close>

theorem pnn50_range:
  assumes "ibi \<noteq> []"
  shows "\<exists>v. pnn50 ibi = Inr v \<and> 0 \<le> v \<and> v < 100"
proof -
  let ?n = "length ibi"
  have n: "0 < ?n" using assms by simp
  have b: "0 \<le> nn50 ibi" "nn50 ibi \<le> int (?n - 1)" using nn50_bounds by auto
  have eq: "pnn50 ibi = Inr (real_of_int (nn50 ibi * 100) / real ?n)"
    using n by (simp add: pnn50_def)
  have lo: "0 \<le> real_of_int (nn50 ibi * 100) / real ?n" using b(1) by simp
  have "nn50 ibi < int ?n" using b(2) n by linarith
  then have "real_of_int (nn50 ibi) < real ?n" by linarith
  then have "real_of_int (nn50 ibi) * 100 < 100 * real ?n" by simp
  then have hi: "real_of_int (nn50 ibi * 100) / real ?n < 100"
    using n by (simp add: divide_less_eq)
  show ?thesis using eq lo hi by blast
qed

theorem pnn50_range_witness:
  "\<exists>v. pnn50 [0.8, 0.9, 1.0] = Inr v \<and> 0 \<le> v \<and> v < 100"
  using pnn50_range [of "[0.8, 0.9, 1.0]"] by simp

subsection \<open>The sum of squared successive differences\<close>

lemma fold_add_sum_list:
  "fold (\<lambda>i s. s + f i) js (a::real) = a + sum_list (map f js)"
  by (induction js arbitrary: a) simp_all

lemma rmssd_sum_eq:
  "rmssd_sum ibi = (\<Sum>i = 1..<length ibi. (ibi ! i - ibi ! (i - 1))\<^sup>2)"
proof -
  have "rmssd_sum ibi = sum_list (map (\<lambda>i. (ibi ! i - ibi ! (i - 1))\<^sup>2) [1..<length ibi])"
    unfolding rmssd_sum_def power2_eq_square
    using fold_add_sum_list [of "\<lambda>i. (ibi ! i - ibi ! (i - 1)) * (ibi ! i - ibi ! (i - 1))" "[1..<length ibi]" 0]
    by simp
  then show ?thesis by (simp add: interv_sum_list_conv_sum_set_nat)
qed

lemma rmssd_sum_nonneg: "0 \<le> rmssd_sum ibi"
  unfolding rmssd_sum_eq by (rule sum_nonneg) simp

text \<open>
  C7. On a non-empty interval sequence \<open>x\<close> of length \<open>n\<close>, with \<open>S\<close> the sum of
  the squared successive differences: \<open>rmssd\<close> returns \<open>sqrt (S / (n - 1))\<close> when
  \<open>S\<close> is positive, and 0 when \<open>S\<close> is 0 or the sequence has one sample. \<open>S\<close> is
  never negative, so the two cases are all there is. A constant sequence gives exactly 0.
\<close>

theorem rmssd_formula:
  assumes "ibi \<noteq> []"
  shows "(0 < (\<Sum>i = 1..<length ibi. (ibi ! i - ibi ! (i - 1))\<^sup>2) \<longrightarrow>
            rmssd ibi = sqrt ((\<Sum>i = 1..<length ibi. (ibi ! i - ibi ! (i - 1))\<^sup>2)
                              / (real (length ibi) - 1))) \<and>
         ((\<Sum>i = 1..<length ibi. (ibi ! i - ibi ! (i - 1))\<^sup>2) = 0 \<or> length ibi = 1 \<longrightarrow>
            rmssd ibi = 0) \<and>
         0 \<le> (\<Sum>i = 1..<length ibi. (ibi ! i - ibi ! (i - 1))\<^sup>2) \<and>
         ((\<forall>i < length ibi. ibi ! i = ibi ! 0) \<longrightarrow> rmssd ibi = 0)"
proof -
  let ?S = "\<Sum>i = 1..<length ibi. (ibi ! i - ibi ! (i - 1))\<^sup>2"
  have S: "rmssd_sum ibi = ?S" by (rule rmssd_sum_eq)
  have pos: "0 < ?S \<longrightarrow> rmssd ibi = sqrt (?S / (real (length ibi) - 1))"
    using assms by (simp add: rmssd_def S Let_def)
  have one: "length ibi = 1 \<longrightarrow> ?S = 0" by simp
  have zero: "?S = 0 \<longrightarrow> rmssd ibi = 0" by (simp add: rmssd_def S Let_def)
  have nonneg: "0 \<le> ?S" using rmssd_sum_nonneg [of ibi] by (simp add: S)
  have const: "(\<forall>i < length ibi. ibi ! i = ibi ! 0) \<longrightarrow> ?S = 0"
  proof
    assume h: "\<forall>i < length ibi. ibi ! i = ibi ! 0"
    have "(ibi ! i - ibi ! (i - 1))\<^sup>2 = 0" if "i \<in> {1..<length ibi}" for i
    proof -
      have "ibi ! i = ibi ! 0" "ibi ! (i - 1) = ibi ! 0" using h that by auto
      then show ?thesis by simp
    qed
    then show "?S = 0" by (intro sum.neutral) blast
  qed
  show ?thesis using pos one zero nonneg const by blast
qed

theorem rmssd_formula_witness:
  "rmssd [1, 3, 2] = sqrt (5 / 2) \<and> rmssd [0.8] = 0 \<and> rmssd [0.8, 0.8, 0.8] = 0"
proof -
  have a: "rmssd [1, 3, 2] = sqrt (5 / 2)"
    using rmssd_formula [of "[1, 3, 2]"] by (simp add: upt_rec)
  have b: "rmssd [0.8] = 0"
    using rmssd_formula [of "[0.8]"] by simp
  have c: "rmssd [0.8, 0.8, 0.8] = 0"
    using rmssd_formula [of "[0.8, 0.8, 0.8]"] by (simp add: upt_rec)
  show ?thesis using a b c by simp
qed

subsection \<open>The running maximum and minimum of \<open>hrMaxMin\<close>\<close>

lemma hrMaxMin_step_eq:
  "hrMaxMin_step ibi i (a, b) = (max a (60 / ibi ! i), min b (60 / ibi ! i))"
  by (simp add: hrMaxMin_step_def Let_def max_def min_def)

lemma hrMaxMin_fold:
  "fold (hrMaxMin_step ibi) js (a, b) =
     (Max (insert a ((\<lambda>i. 60 / ibi ! i) ` set js)), Min (insert b ((\<lambda>i. 60 / ibi ! i) ` set js)))"
proof (induction js arbitrary: a b)
  case Nil
  show ?case by simp
next
  case (Cons j js)
  let ?S = "(\<lambda>i. 60 / ibi ! i) ` set js"
  have fin: "finite ?S" by simp
  have mx: "Max (insert (max a (60 / ibi ! j)) ?S) = Max (insert a (insert (60 / ibi ! j) ?S))"
    using fin by (cases "?S = {}") (simp_all add: max.assoc)
  have mn: "Min (insert (min b (60 / ibi ! j)) ?S) = Min (insert b (insert (60 / ibi ! j) ?S))"
    using fin by (cases "?S = {}") (simp_all add: min.assoc)
  show ?case by (simp add: hrMaxMin_step_eq Cons.IH mx mn)
qed

lemma hr_image: "(\<lambda>i. 60 / ibi ! i) ` set [0..<length ibi] = (\<lambda>x. 60 / x) ` set (ibi :: real list)"
proof -
  have "set ibi = (\<lambda>i. ibi ! i) ` {0..<length ibi}" by (auto simp: set_conv_nth)
  then show ?thesis by (simp add: image_image)
qed

lemma hrMaxMin_eq:
  "hrMaxMin ibi = Max (insert 0 ((\<lambda>x. 60 / x) ` set ibi)) - Min (insert 1000 ((\<lambda>x. 60 / x) ` set ibi))"
  unfolding hrMaxMin_def hrMaxMin_fold hr_image by simp

text \<open>
  C4. \<open>hrMaxMin\<close> is the greatest minus the least heart rate only while the
  running minimum leaves its initial value 1000. On the one sample 0.05 seconds the heart
  rate is 1200, the test \<open>hr < hrmin\<close> fails, and the result is 1200 - 1000 = 200,
  where the greatest and the least heart rate of the window are equal and their
  difference is 0. On the intervals 0.5, 1.0, 2.0 the result is 90.
\<close>

theorem hrMaxMin_sentinel_leak:
  "hrMaxMin [0.05] = 200 \<and>
   Max ((\<lambda>x. 60 / x) ` set [0.05 :: real]) - Min ((\<lambda>x. 60 / x) ` set [0.05 :: real]) = 0 \<and>
   hrMaxMin [0.5, 1.0, 2.0] = 90"
  by (simp add: hrMaxMin_def hrMaxMin_step_def)

subsection \<open>Reordering a window\<close>

text \<open>
  C8, as amended. \<open>hrMaxMin\<close> returns the same value for every reordering of a
  sequence. \<open>rmssd\<close>, \<open>nn50\<close> and also \<open>pnn50\<close> depend on the order:
  exchanging the first and the third element of 1, 1, 2, 1 changes all three.
\<close>

theorem reorder_invariance:
  "(mset xs = mset ys \<longrightarrow> hrMaxMin xs = hrMaxMin ys) \<and>
   (let zs = [1, 1, 2, 1] in
      rmssd (zs[0 := zs ! 2, 2 := zs ! 0]) \<noteq> rmssd zs \<and>
      nn50 (zs[0 := zs ! 2, 2 := zs ! 0]) \<noteq> nn50 zs \<and>
      pnn50 (zs[0 := zs ! 2, 2 := zs ! 0]) \<noteq> pnn50 zs)"
proof -
  have inv: "mset xs = mset ys \<longrightarrow> hrMaxMin xs = hrMaxMin ys"
  proof
    assume "mset xs = mset ys"
    then have "set xs = set ys" by (rule mset_eq_setD)
    then show "hrMaxMin xs = hrMaxMin ys" by (simp add: hrMaxMin_eq)
  qed
  have r1: "rmssd [2, 1, 1, 1] = sqrt (1 / 3)"
    by (simp add: rmssd_def rmssd_sum_def upt_rec)
  have r2: "rmssd [1, 1, 2, 1] = sqrt (2 / 3)"
    by (simp add: rmssd_def rmssd_sum_def upt_rec)
  have r: "rmssd [2, 1, 1, 1] \<noteq> rmssd [1, 1, 2, 1]"
    unfolding r1 r2 by simp
  have n: "nn50 [2, 1, 1, 1] \<noteq> nn50 [1, 1, 2, 1]"
    by (simp add: nn50_def upt_rec)
  have p: "pnn50 [2, 1, 1, 1] \<noteq> pnn50 [1, 1, 2, 1]"
    by (simp add: pnn50_def nn50_def upt_rec)
  show ?thesis using inv r n p by (simp add: Let_def)
qed

text \<open>A reordering of 0.8, 0.9, 1.0.\<close>

theorem reorder_invariance_witness:
  "hrMaxMin [0.8, 0.9, 1.0] = hrMaxMin [1.0, 0.8, 0.9]"
  using reorder_invariance [of "[0.8, 0.9, 1.0]" "[1.0, 0.8, 0.9]"] by simp

text \<open>
  C8 as stated fails for \<open>pnn50\<close>: 0.8, 0.8, 0.9, 0.9 and 0.8, 0.9, 0.8, 0.9 are
  reorderings of each other, the first with one adjacent pair more than 0.05 apart and the
  second with three, and \<open>pnn50\<close> is 25 on the first and 50 on the second.
\<close>

theorem pnn50_reorder_counterexample:
  "mset [0.8, 0.8, 0.9, 0.9 :: real] = mset [0.8, 0.9, 0.8, 0.9] \<and>
   pnn50 [0.8, 0.8, 0.9, 0.9] = Inr 25 \<and> pnn50 [0.8, 0.9, 0.8, 0.9] = Inr 50"
  by (simp add: pnn50_def nn50_def upt_rec)

subsection \<open>Adjacent pairs\<close>

text \<open>
  C2. On the alternating sequence 0.8, 0.9, 0.8, 0.9 all three adjacent pairs differ by
  0.1, but \<open>nn50\<close> returns 2: the comparison \<open>ibi[i] - ibi[i-1] > 0.05\<close> takes
  the signed difference, so a decrease is never counted.
\<close>

theorem nn50_alternating:
  "nn50 [0.8, 0.9, 0.8, 0.9] = 2 \<and> nn50_spec [0.8, 0.9, 0.8, 0.9] = 3"
  by (simp add: nn50_def nn50_spec_def upt_rec)

section \<open>Properties of the windowing engine\<close>

subsection \<open>Entry points\<close>

text \<open>
  C9. Each entry point is the engine with the canonical window size and its reducer:
  60 seconds for \<open>rmssd\<close> and \<open>sdnn\<close>, 120 seconds for \<open>nn50\<close>,
  \<open>pnn50\<close> and \<open>hrMaxMin\<close>.
\<close>

theorem entry_points:
  "getRMSSD time data = chunckData time data 60 (returns rmssd) \<and>
   getSDNN np_std time data = chunckData time data 60 (returns (sdnn np_std)) \<and>
   getNN50 time data = chunckData time data 120 (returns nn50) \<and>
   getPNN50 time data = chunckData time data 120 pnn50 \<and>
   getHRMaxMin time data = chunckData time data 120 (returns hrMaxMin)"
  by (simp add: getRMSSD_def getSDNN_def getNN50_def getPNN50_def getHRMaxMin_def)

subsection \<open>No validation of the input\<close>

lemma chunck_step_total:
  assumes "\<And>sl. sl \<noteq> [] \<Longrightarrow> \<exists>v. operation sl = Inr v"
  shows "\<exists>s'. chunck_step time data w operation s t = Inr s'"
proof (cases "py_slice data (int (start_index s)) (int t - 1) = []")
  case True
  then show ?thesis by (simp add: chunck_step_def)
next
  case False
  then obtain v where "operation (py_slice data (int (start_index s)) (int t - 1)) = Inr v"
    using assms by blast
  then show ?thesis by (simp add: chunck_step_def)
qed

lemma chunck_loop_total:
  assumes "\<And>sl. sl \<noteq> [] \<Longrightarrow> \<exists>v. operation sl = Inr v"
  shows "\<exists>s'. chunck_loop time data w operation s idxs = Inr s'"
proof (induction idxs arbitrary: s)
  case Nil
  show ?case by simp
next
  case (Cons t idxs)
  have "\<exists>s1. chunck_step time data w operation s t = Inr s1"
    by (rule chunck_step_total) (rule assms)
  then obtain s1 where "chunck_step time data w operation s t = Inr s1" ..
  then show ?case using Cons.IH [of s1] by simp
qed

lemma chunckData_total:
  assumes "\<And>sl. sl \<noteq> [] \<Longrightarrow> \<exists>v. operation sl = Inr v"
  shows "\<exists>fr. chunckData time data w operation = Inr fr"
proof -
  have "\<exists>s'. chunck_loop time data w operation chunck_init [0..<length time] = Inr s'"
    by (rule chunck_loop_total) (rule assms)
  then obtain s' where "chunck_loop time data w operation chunck_init [0..<length time] = Inr s'" ..
  then show ?thesis by (simp add: chunckData_def)
qed

lemma pnn50_total: "sl \<noteq> [] \<Longrightarrow> \<exists>v. pnn50 sl = Inr v"
  by (simp add: pnn50_def)

text \<open>
  C3, as amended. \<open>chunckData\<close> checks nothing: for every \<open>time\<close>,
  \<open>data\<close> and \<open>window_size\<close>, whatever the lengths and the sign of the window
  size, it returns a frame when the reducer does not raise, and so does the entry point
  of \<open>pnn50\<close>, whose reducer is only called on non-empty slices. On the empty
  sequence \<open>rmssd\<close> and \<open>nn50\<close> return 0 and \<open>hrMaxMin\<close> returns
  -1000; \<open>pnn50\<close> alone raises, and what it raises is \<open>ZeroDivisionError\<close>.
\<close>

theorem no_input_validation:
  "(\<exists>fr. chunckData time data window_size (returns f) = Inr fr) \<and>
   (\<exists>fr. getPNN50 time data = Inr fr) \<and>
   rmssd [] = 0 \<and> nn50 [] = 0 \<and> hrMaxMin [] = - 1000 \<and>
   pnn50 [] = Inl ZeroDivisionError"
proof -
  have a: "\<exists>fr. chunckData time data window_size (returns f) = Inr fr"
    by (rule chunckData_total) (simp add: returns_def)
  have b: "\<exists>fr. getPNN50 time data = Inr fr"
    unfolding getPNN50_def by (rule chunckData_total) (rule pnn50_total)
  have c: "rmssd [] = 0 \<and> nn50 [] = 0 \<and> hrMaxMin [] = - 1000 \<and> pnn50 [] = Inl ZeroDivisionError"
    by (simp add: rmssd_def rmssd_sum_def nn50_def hrMaxMin_def pnn50_def)
  show ?thesis using a b c by blast
qed

text \<open>
  C3 as stated fails: five timestamps with two intervals give a record computed from the
  clipped slice, a window size of 0 gives a record, and \<open>rmssd\<close> of the empty
  sequence is 0.
\<close>

theorem no_input_validation_counterexample:
  "chunckData [0, 1, 2, 3, 63] [0.8, 0.9] 60 (returns nn50) =
     Inr \<lparr>startTime = [0], endTime = [63], values_col = [1]\<rparr> \<and>
   chunckData [0, 1, 2, 3, 63] [0.8, 0.9, 0.8, 0.7, 0.6] 0 (returns nn50) =
     Inr \<lparr>startTime = [0], endTime = [0], values_col = [1]\<rparr> \<and>
   rmssd [] = 0"
proof -
  have a: "chunckData [0, 1, 2, 3, 63] [0.8, 0.9] 60 (returns nn50) =
     Inr \<lparr>startTime = [0], endTime = [63], values_col = [1]\<rparr>"
    by (simp add: chunckData_def chunck_init_def chunck_step_def py_slice_def returns_def nn50_def upt_rec)
  have b: "chunckData [0, 1, 2, 3, 63] [0.8, 0.9, 0.8, 0.7, 0.6] 0 (returns nn50) =
     Inr \<lparr>startTime = [0], endTime = [0], values_col = [1]\<rparr>"
    by (simp add: chunckData_def chunck_init_def chunck_step_def py_slice_def returns_def nn50_def upt_rec)
  have c: "rmssd [] = 0" by (simp add: rmssd_def rmssd_sum_def)
  show ?thesis using a b c by simp
qed

subsection \<open>Series shorter than a window\<close>

lemma chunck_loop_idle:
  assumes "\<forall>t \<in> set idxs. time ! t - time ! start_index s < w"
  shows "chunck_loop time data w operation s idxs = Inr s"
  using assms
proof (induction idxs)
  case Nil
  show ?case by simp
next
  case (Cons t idxs)
  have "chunck_step time data w operation s t = Inr s"
    using Cons.prems by (simp add: chunck_step_def)
  then show ?case using Cons by simp
qed

text \<open>
  C6. For non-decreasing timestamps, when there is no sample or the last timestamp minus
  the first is below the window size, \<open>chunckData\<close> returns the empty frame, and
  no error, whatever the reducer.
\<close>

theorem chunckData_short_series:
  assumes "sorted time" and "time = [] \<or> last time - hd time < window_size"
  shows "chunckData time data window_size operation =
           Inr \<lparr>startTime = [], endTime = [], values_col = []\<rparr>"
proof -
  have "time ! t - time ! 0 < window_size" if t: "t < length time" for t
  proof -
    have ne: "time \<noteq> []" using t by auto
    then have d: "last time - hd time < window_size" using assms(2) by simp
    have "time ! t \<le> time ! (length time - 1)"
      using assms(1) t by (intro sorted_nth_mono) auto
    then have "time ! t \<le> last time" using ne by (simp add: last_conv_nth)
    moreover have "time ! 0 = hd time" using ne by (simp add: hd_conv_nth)
    ultimately show ?thesis using d by linarith
  qed
  then have "\<forall>t \<in> set [0..<length time]. time ! t - time ! start_index (chunck_init :: 'a chunck_state) < window_size"
    by (simp add: chunck_init_def)
  then have "chunck_loop time data window_size operation chunck_init [0..<length time] = Inr chunck_init"
    by (rule chunck_loop_idle)
  then show ?thesis by (simp add: chunckData_def chunck_init_def)
qed

text \<open>A series of 59 seconds with a window of 60 seconds, and the empty series.\<close>

theorem chunckData_short_series_witness:
  "chunckData [0, 30, 59] [0.8, 0.9, 0.8] 60 (returns rmssd) =
     Inr \<lparr>startTime = [], endTime = [], values_col = []\<rparr> \<and>
   chunckData [] [] 60 (returns rmssd) =
     Inr \<lparr>startTime = [], endTime = [], values_col = []\<rparr>"
proof -
  have a: "chunckData [0, 30, 59] [0.8, 0.9, 0.8] 60 (returns rmssd) =
     Inr \<lparr>startTime = [], endTime = [], values_col = []\<rparr>"
    using chunckData_short_series [of "[0, 30, 59]" 60 "[0.8, 0.9, 0.8]" "returns rmssd"] by simp
  have b: "chunckData [] [] 60 (returns rmssd) =
     Inr \<lparr>startTime = [], endTime = [], values_col = []\<rparr>"
    using chunckData_short_series [of "[]" 60 "[]" "returns rmssd"] by simp
  show ?thesis using a b by simp
qed

subsection \<open>The scan of the specification\<close>

lemma take_drop_nth: "a + k \<le> length xs \<Longrightarrow> take k (drop a xs) = map (\<lambda>i. xs ! i) [a..<a + k]"
  by (rule nth_equalityI) (auto simp: add.commute)

lemma py_slice_upt:
  assumes "1 \<le> b" and "b - 1 \<le> length xs"
  shows "py_slice xs (int a) (int b - 1) = map (\<lambda>i. xs ! i) [a..<b - 1]"
proof (cases "a \<le> b - 1")
  case True
  have "py_slice xs (int a) (int b - 1) = take (b - 1 - a) (drop a xs)"
    using assms True by (simp add: py_slice_def Let_def min_def nat_diff_distrib')
  also have "\<dots> = map (\<lambda>i. xs ! i) [a..<a + (b - 1 - a)]"
    using assms True by (intro take_drop_nth) simp
  also have "a + (b - 1 - a) = b - 1" using True by simp
  finally show ?thesis .
next
  case False
  then have "py_slice xs (int a) (int b - 1) = []"
    using assms by (auto simp: py_slice_def Let_def min_def)
  then show ?thesis using False by simp
qed

lemma chunck_step_open:
  "\<not> time ! t - time ! start_index s \<ge> w \<Longrightarrow> chunck_step time data w operation s t = Inr s"
  by (simp add: chunck_step_def)

lemma chunck_step_skip:
  "time ! t - time ! start_index s \<ge> w \<Longrightarrow>
   py_slice data (int (start_index s)) (int t - 1) = [] \<Longrightarrow>
   chunck_step time data w operation s t = Inr (s\<lparr>start_index := t\<rparr>)"
  by (simp add: chunck_step_def)

lemma chunck_step_emit:
  "time ! t - time ! start_index s \<ge> w \<Longrightarrow>
   py_slice data (int (start_index s)) (int t - 1) = sl \<Longrightarrow> sl \<noteq> [] \<Longrightarrow>
   operation sl = Inr v \<Longrightarrow>
   chunck_step time data w operation s t =
     Inr (s\<lparr>values' := values' s @ [v],
            start_time := start_time s @ [time ! start_index s],
            end_time := end_time s @ [time ! t],
            start_index := t\<rparr>)"
  by (simp add: chunck_step_def)

lemma chunck_step_fail:
  "time ! t - time ! start_index s \<ge> w \<Longrightarrow>
   py_slice data (int (start_index s)) (int t - 1) = sl \<Longrightarrow> sl \<noteq> [] \<Longrightarrow>
   operation sl = Inl e \<Longrightarrow>
   chunck_step time data w operation s t = Inl e"
  by (simp add: chunck_step_def)

lemma chunck_loop_scan:
  assumes "0 < w" and "sorted_wrt (<) idxs"
    and "\<forall>t \<in> set idxs. start_index s \<le> t \<and> t \<le> length data"
  shows "chunck_loop time data w (returns reduce) s idxs =
           Inr (s\<lparr>values' := values' s @ map (snd \<circ> snd) (chunk_scan time data w reduce (start_index s) idxs),
                  start_time := start_time s @ map fst (chunk_scan time data w reduce (start_index s) idxs),
                  end_time := end_time s @ map (fst \<circ> snd) (chunk_scan time data w reduce (start_index s) idxs),
                  start_index := scan_end time w (start_index s) idxs\<rparr>)"
  using assms(2,3)
proof (induction idxs arbitrary: s)
  case Nil
  show ?case by simp
next
  case (Cons t rest)
  have sorted_rest: "sorted_wrt (<) rest" and above: "\<forall>u \<in> set rest. t < u"
    using Cons.prems(1) by auto
  have bnd: "start_index s \<le> t" "t \<le> length data"
    and bnd_rest: "\<forall>u \<in> set rest. u \<le> length data"
    using Cons.prems(2) by auto
  show ?case
  proof (cases "time ! t - time ! start_index s \<ge> w")
    case False
    then have step: "chunck_step time data w (returns reduce) s t = Inr s"
      by (rule chunck_step_open)
    have "\<forall>u \<in> set rest. start_index s \<le> u \<and> u \<le> length data"
      using above bnd bnd_rest by auto
    then show ?thesis using False step Cons.IH [OF sorted_rest, of s] by simp
  next
    case True
    then have "t \<noteq> start_index s" using assms(1) by auto
    then have t1: "1 \<le> t" using bnd(1) by simp
    have sl: "py_slice data (int (start_index s)) (int t - 1) =
                map (\<lambda>i. data ! i) [start_index s..<t - 1]"
      using t1 bnd(2) by (intro py_slice_upt) simp_all
    show ?thesis
    proof (cases "[start_index s..<t - 1] = []")
      case True
      with sl have empty: "py_slice data (int (start_index s)) (int t - 1) = []" by simp
      let ?s1 = "s\<lparr>start_index := t\<rparr>"
      have step: "chunck_step time data w (returns reduce) s t = Inr ?s1"
        using \<open>time ! t - time ! start_index s \<ge> w\<close> empty by (rule chunck_step_skip)
      have pre: "\<forall>u \<in> set rest. start_index ?s1 \<le> u \<and> u \<le> length data"
        using above bnd_rest by auto
      show ?thesis
        using \<open>time ! t - time ! start_index s \<ge> w\<close> True step
          Cons.IH [OF sorted_rest pre]
        by simp
    next
      case False
      then have nonempty: "map (\<lambda>i. data ! i) [start_index s..<t - 1] \<noteq> []" by simp
      let ?v = "reduce (map (\<lambda>i. data ! i) [start_index s..<t - 1])"
      let ?s1 = "s\<lparr>values' := values' s @ [?v],
                     start_time := start_time s @ [time ! start_index s],
                     end_time := end_time s @ [time ! t],
                     start_index := t\<rparr>"
      have step: "chunck_step time data w (returns reduce) s t = Inr ?s1"
        using \<open>time ! t - time ! start_index s \<ge> w\<close> sl nonempty
        by (rule chunck_step_emit) (simp add: returns_def)
      have pre: "\<forall>u \<in> set rest. start_index ?s1 \<le> u \<and> u \<le> length data"
        using above bnd_rest by auto
      show ?thesis
        using \<open>time ! t - time ! start_index s \<ge> w\<close> False step
          Cons.IH [OF sorted_rest pre]
        by (simp add: Let_def)
    qed
  qed
qed

text \<open>
  C1. On a valid input \<open>chunckData\<close> returns, and returns the records of the
  specification's scan, in scan order: at each position \<open>t\<close> where the elapsed time
  since the window start reaches the window size, the slice is the intervals at the
  positions from the window start up to, not including, \<open>t - 1\<close>; a record of the
  window start time, the time at \<open>t\<close> and the reduced slice is emitted exactly when
  the slice is not empty; the window start moves to \<open>t\<close> either way; what follows
  the last such position gives no record.
\<close>

theorem chunckData_refines_spec:
  assumes "valid_input time data w"
  shows "chunckData time data w (returns reduce) = Inr (frame_of (chunk_spec time data w reduce))"
proof -
  have w: "0 < w" and len: "length time = length data"
    using assms by (simp_all add: valid_input_def)
  have pre: "\<forall>t \<in> set [0..<length time].
               start_index (chunck_init :: 'a chunck_state) \<le> t \<and> t \<le> length data"
    using len by (simp add: chunck_init_def)
  have srt: "sorted_wrt (<) [0..<length time]" by simp
  show ?thesis
    unfolding chunckData_def chunck_loop_scan [OF w srt pre]
    by (simp add: chunck_init_def frame_of_def chunk_spec_def)
qed

text \<open>Seven samples with a window of 60 seconds: two windows.\<close>

theorem chunckData_refines_spec_witness:
  "chunckData [0, 20, 40, 61, 62, 100, 125] [0.8, 0.9, 1.0, 0.9, 0.8, 0.9, 0.8] 60 (returns nn50) =
     Inr \<lparr>startTime = [0, 61], endTime = [61, 125], values_col = [1, 0]\<rparr>"
proof -
  have v: "valid_input [0, 20, 40, 61, 62, 100, 125] [0.8, 0.9, 1.0, 0.9, 0.8, 0.9, 0.8] 60"
    by (simp add: valid_input_def)
  show ?thesis
    using chunckData_refines_spec [OF v, of nn50]
    by (simp add: frame_of_def chunk_spec_def nn50_def upt_rec)
qed

subsection \<open>The windows the loop closes\<close>

lemma chunck_loop_windows:
  assumes "chunck_loop time data w operation s idxs = Inr s'"
  shows "start_index s' = scan_end time w (start_index s) idxs \<and>
         start_time s' =
           start_time s @ map (\<lambda>p. time ! fst p) (closed_windows time data w (start_index s) idxs) \<and>
         end_time s' =
           end_time s @ map (\<lambda>p. time ! snd p) (closed_windows time data w (start_index s) idxs) \<and>
         (\<exists>vs. values' s' = values' s @ vs \<and>
            list_all2 (\<lambda>p v. operation (py_slice data (int (fst p)) (int (snd p) - 1)) = Inr v)
              (closed_windows time data w (start_index s) idxs) vs)"
  using assms
proof (induction idxs arbitrary: s)
  case Nil
  then show ?case by simp
next
  case (Cons t rest)
  let ?sl = "py_slice data (int (start_index s)) (int t - 1)"
  show ?case
  proof (cases "time ! t - time ! start_index s \<ge> w")
    case False
    then have "chunck_step time data w operation s t = Inr s" by (rule chunck_step_open)
    then have "chunck_loop time data w operation s rest = Inr s'" using Cons.prems by simp
    then show ?thesis using Cons.IH [of s] False by simp
  next
    case closing: True
    show ?thesis
    proof (cases "?sl = []")
      case True
      let ?s1 = "s\<lparr>start_index := t\<rparr>"
      have "chunck_step time data w operation s t = Inr ?s1"
        using closing True by (rule chunck_step_skip)
      then have "chunck_loop time data w operation ?s1 rest = Inr s'" using Cons.prems by simp
      then show ?thesis using Cons.IH [of ?s1] closing True by simp
    next
      case False
      show ?thesis
      proof (cases "operation ?sl")
        case (Inl e)
        have "chunck_step time data w operation s t = Inl e"
          using closing refl False Inl by (rule chunck_step_fail)
        then show ?thesis using Cons.prems by simp
      next
        case (Inr v)
        let ?s1 = "s\<lparr>values' := values' s @ [v],
                       start_time := start_time s @ [time ! start_index s],
                       end_time := end_time s @ [time ! t],
                       start_index := t\<rparr>"
        have "chunck_step time data w operation s t = Inr ?s1"
          using closing refl False Inr by (rule chunck_step_emit)
        then have "chunck_loop time data w operation ?s1 rest = Inr s'" using Cons.prems by simp
        from Cons.IH [OF this] obtain vs where
          ix: "start_index s' = scan_end time w t rest" and
          st: "start_time s' = (start_time s @ [time ! start_index s]) @
                 map (\<lambda>p. time ! fst p) (closed_windows time data w t rest)" and
          en: "end_time s' = (end_time s @ [time ! t]) @
                 map (\<lambda>p. time ! snd p) (closed_windows time data w t rest)" and
          vs: "values' s' = (values' s @ [v]) @ vs" and
          rel: "list_all2 (\<lambda>p v. operation (py_slice data (int (fst p)) (int (snd p) - 1)) = Inr v)
                  (closed_windows time data w t rest) vs"
          by auto
        have W: "closed_windows time data w (start_index s) (t # rest) =
                   (start_index s, t) # closed_windows time data w t rest"
          using closing False by simp
        have "values' s' = values' s @ (v # vs)" using vs by simp
        moreover have "list_all2 (\<lambda>p v. operation (py_slice data (int (fst p)) (int (snd p) - 1)) = Inr v)
                  (closed_windows time data w (start_index s) (t # rest)) (v # vs)"
          unfolding W using rel Inr by simp
        ultimately show ?thesis using ix st en closing unfolding W by auto
      qed
    qed
  qed
qed

lemma scan_end_cases: "scan_end time w ws idxs = ws \<or> scan_end time w ws idxs \<in> set idxs"
proof (induction idxs arbitrary: ws)
  case Nil
  show ?case by simp
next
  case (Cons t rest)
  show ?case using Cons [of t] Cons [of ws] by auto
qed

lemma scan_end_ge:
  assumes "\<forall>t \<in> set idxs. ws \<le> t"
  shows "ws \<le> scan_end time w ws idxs"
  using assms scan_end_cases [of time w ws idxs] by auto

lemma closed_windows_mem:
  assumes "0 < w" and "sorted_wrt (<) idxs" and "\<forall>t \<in> set idxs. ws \<le> t"
    and "p \<in> set (closed_windows time data w ws idxs)"
  shows "ws \<le> fst p \<and> fst p < snd p \<and> snd p \<in> set idxs \<and>
         time ! snd p - time ! fst p \<ge> w \<and>
         py_slice data (int (fst p)) (int (snd p) - 1) \<noteq> [] \<and>
         snd p \<le> scan_end time w ws idxs"
  using assms(2-)
proof (induction idxs arbitrary: ws)
  case Nil
  then show ?case by simp
next
  case (Cons t rest)
  have sorted_rest: "sorted_wrt (<) rest" and above: "\<forall>u \<in> set rest. t \<le> u"
    using Cons.prems(1) by auto
  have le: "ws \<le> t" and le_rest: "\<forall>u \<in> set rest. ws \<le> u" using Cons.prems(2) by auto
  show ?case
  proof (cases "time ! t - time ! ws \<ge> w")
    case False
    then have "p \<in> set (closed_windows time data w ws rest)" using Cons.prems(3) by simp
    from Cons.IH [OF sorted_rest le_rest this] show ?thesis using False by simp
  next
    case closing: True
    then have "t \<noteq> ws" using assms(1) by auto
    then have lt: "ws < t" using le by simp
    consider (here) "p = (ws, t)" "py_slice data (int ws) (int t - 1) \<noteq> []"
      | (later) "p \<in> set (closed_windows time data w t rest)"
      using Cons.prems(3) closing by (auto split: if_splits)
    then show ?thesis
    proof cases
      case here
      have "t \<le> scan_end time w t rest" using above by (rule scan_end_ge)
      then show ?thesis using here closing lt by simp
    next
      case later
      from Cons.IH [OF sorted_rest above later] show ?thesis using closing lt by auto
    qed
  qed
qed

lemma closed_windows_chain:
  assumes "0 < w" and "sorted_wrt (<) idxs" and "\<forall>t \<in> set idxs. ws \<le> t"
  shows "sorted_wrt (\<lambda>p q. snd p \<le> fst q) (closed_windows time data w ws idxs)"
  using assms(2-)
proof (induction idxs arbitrary: ws)
  case Nil
  show ?case by simp
next
  case (Cons t rest)
  have sorted_rest: "sorted_wrt (<) rest" and above: "\<forall>u \<in> set rest. t \<le> u"
    using Cons.prems(1) by auto
  have le_rest: "\<forall>u \<in> set rest. ws \<le> u" using Cons.prems(2) by auto
  show ?case
  proof (cases "time ! t - time ! ws \<ge> w")
    case False
    then show ?thesis using Cons.IH [OF sorted_rest le_rest] by simp
  next
    case True
    have "t \<le> fst q" if "q \<in> set (closed_windows time data w t rest)" for q
      using closed_windows_mem [OF assms(1) sorted_rest above that] by simp
    then show ?thesis using True Cons.IH [OF sorted_rest above] by simp
  qed
qed

lemma scan_end_trailing:
  assumes "0 < w" and "sorted_wrt (<) idxs" and "\<forall>t \<in> set idxs. ws \<le> t"
    and "t \<in> set idxs" and "scan_end time w ws idxs \<le> t"
  shows "time ! t - time ! scan_end time w ws idxs < w"
  using assms(2-)
proof (induction idxs arbitrary: ws)
  case Nil
  then show ?case by simp
next
  case (Cons u rest)
  have sorted_rest: "sorted_wrt (<) rest" and above: "\<forall>v \<in> set rest. u < v"
    using Cons.prems(1) by auto
  have le: "ws \<le> u" and le_rest: "\<forall>v \<in> set rest. ws \<le> v" using Cons.prems(2) by auto
  show ?case
  proof (cases "time ! u - time ! ws \<ge> w")
    case closing: True
    have above': "\<forall>v \<in> set rest. u \<le> v" using above by auto
    have e: "scan_end time w ws (u # rest) = scan_end time w u rest" using closing by simp
    show ?thesis
    proof (cases "t = u")
      case True
      have "u \<le> scan_end time w u rest" using above' by (rule scan_end_ge)
      then have "scan_end time w u rest = u" using Cons.prems(4) e True by simp
      then show ?thesis using e True assms(1) by simp
    next
      case False
      then have "t \<in> set rest" using Cons.prems(3) by simp
      from Cons.IH [OF sorted_rest above' this] show ?thesis using Cons.prems(4) e by simp
    qed
  next
    case False
    then have e: "scan_end time w ws (u # rest) = scan_end time w ws rest" by simp
    show ?thesis
    proof (cases "t = u")
      case True
      have "scan_end time w ws rest = ws \<or> scan_end time w ws rest \<in> set rest"
        by (rule scan_end_cases)
      then have "scan_end time w ws rest = ws"
        using above Cons.prems(4) e True by auto
      then show ?thesis using e True False by simp
    next
      case neq: False
      then have "t \<in> set rest" using Cons.prems(3) by simp
      from Cons.IH [OF sorted_rest le_rest this] show ?thesis using Cons.prems(4) e by simp
    qed
  qed
qed

text \<open>
  C5. On a valid input, whatever the reducer, when \<open>chunckData\<close> returns a frame:
  its three columns have one length; every record spans at least the window size; a
  record ends no later than every later record starts; the window starts increase
  strictly and are input timestamps; every record comes from a window start \<open>a\<close>
  and a scan position \<open>b\<close> with at least one sample in the slice from \<open>a\<close> up
  to, not including, \<open>b - 1\<close>, and carries the reducer's value on that slice. The
  samples from the last window start on never reach the threshold, and every record
  ends at or before that window start, so the trailing run gives no record.
\<close>

theorem chunckData_windows:
  assumes "valid_input time data w" and "chunckData time data w operation = Inr fr"
  shows "\<exists>s'. chunck_loop time data w operation chunck_init [0..<length time] = Inr s' \<and>
           fr = \<lparr>startTime = start_time s', endTime = end_time s', values_col = values' s'\<rparr> \<and>
           length (startTime fr) = length (values_col fr) \<and>
           length (endTime fr) = length (values_col fr) \<and>
           (\<forall>i < length (values_col fr). endTime fr ! i - startTime fr ! i \<ge> w) \<and>
           (\<forall>i j. i < j \<and> j < length (values_col fr) \<longrightarrow> endTime fr ! i \<le> startTime fr ! j) \<and>
           (\<forall>i j. i < j \<and> j < length (values_col fr) \<longrightarrow> startTime fr ! i < startTime fr ! j) \<and>
           set (startTime fr) \<subseteq> set time \<and>
           (\<forall>t. start_index s' \<le> t \<and> t < length time \<longrightarrow>
                time ! t - time ! start_index s' < w) \<and>
           (\<forall>i < length (values_col fr). \<exists>a b.
                a + 1 < b \<and> b \<le> start_index s' \<and> b < length time \<and>
                startTime fr ! i = time ! a \<and> endTime fr ! i = time ! b \<and>
                operation (map (\<lambda>k. data ! k) [a..<b - 1]) = Inr (values_col fr ! i))"
proof -
  let ?idxs = "[0..<length time]"
  let ?W = "closed_windows time data w 0 ?idxs"
  let ?f = "scan_end time w 0 ?idxs"
  have w: "0 < w" and len: "length time = length data" and srt: "sorted time"
    using assms(1) by (simp_all add: valid_input_def)
  have sidx: "sorted_wrt (<) ?idxs" by simp
  have ge0: "\<forall>t \<in> set ?idxs. 0 \<le> t" by simp
  obtain s' where loop: "chunck_loop time data w operation chunck_init ?idxs = Inr s'"
    and fr: "fr = \<lparr>startTime = start_time s', endTime = end_time s', values_col = values' s'\<rparr>"
    using assms(2) by (auto simp: chunckData_def split: sum.splits)
  have s0: "start_index (chunck_init :: 'a chunck_state) = 0"
    "start_time (chunck_init :: 'a chunck_state) = []"
    "end_time (chunck_init :: 'a chunck_state) = []"
    "values' (chunck_init :: 'a chunck_state) = []"
    by (simp_all add: chunck_init_def)
  from chunck_loop_windows [OF loop] have
    ix: "start_index s' = ?f" and
    st: "startTime fr = map (\<lambda>p. time ! fst p) ?W" and
    en: "endTime fr = map (\<lambda>p. time ! snd p) ?W" and
    rel: "list_all2 (\<lambda>p v. operation (py_slice data (int (fst p)) (int (snd p) - 1)) = Inr v)
            ?W (values_col fr)"
    unfolding s0 fr by simp_all
  have n: "length ?W = length (values_col fr)" using rel by (rule list_all2_lengthD)
  have mem: "fst (?W ! i) < snd (?W ! i) \<and> snd (?W ! i) < length time \<and>
             time ! snd (?W ! i) - time ! fst (?W ! i) \<ge> w \<and>
             py_slice data (int (fst (?W ! i))) (int (snd (?W ! i)) - 1) \<noteq> [] \<and>
             snd (?W ! i) \<le> ?f"
    if "i < length (values_col fr)" for i
  proof -
    have "?W ! i \<in> set ?W" using that n by simp
    from closed_windows_mem [OF w sidx ge0 this] show ?thesis by simp
  qed
  have span: "\<forall>i < length (values_col fr). endTime fr ! i - startTime fr ! i \<ge> w"
    using mem n by (simp add: st en)
  have chain: "snd (?W ! i) \<le> fst (?W ! j)" if "i < j" "j < length (values_col fr)" for i j
    using closed_windows_chain [OF w sidx ge0] that n
    by (simp add: sorted_wrt_iff_nth_less)
  have apart: "endTime fr ! i \<le> startTime fr ! j" if ij: "i < j" "j < length (values_col fr)" for i j
  proof -
    have "fst (?W ! j) < length time" using mem [OF ij(2)] by simp
    then have "time ! snd (?W ! i) \<le> time ! fst (?W ! j)"
      using srt chain [OF ij] by (intro sorted_nth_mono)
    then show ?thesis using ij n by (simp add: st en)
  qed
  have incr: "startTime fr ! i < startTime fr ! j" if ij: "i < j" "j < length (values_col fr)" for i j
  proof -
    have i: "i < length (values_col fr)" using ij by simp
    have "endTime fr ! i - startTime fr ! i \<ge> w" using span i by blast
    then show ?thesis using apart [OF ij] w by linarith
  qed
  have sub: "set (startTime fr) \<subseteq> set time"
  proof
    fix x assume "x \<in> set (startTime fr)"
    then obtain i where i: "i < length (values_col fr)" and x: "x = startTime fr ! i"
      using n st by (auto simp: in_set_conv_nth)
    have "fst (?W ! i) < length time" using mem [OF i] by simp
    then show "x \<in> set time" using x i n by (simp add: st)
  qed
  have trail: "\<forall>t. start_index s' \<le> t \<and> t < length time \<longrightarrow> time ! t - time ! start_index s' < w"
    unfolding ix using scan_end_trailing [OF w sidx ge0] by simp
  have rec: "\<exists>a b. a + 1 < b \<and> b \<le> start_index s' \<and> b < length time \<and>
               startTime fr ! i = time ! a \<and> endTime fr ! i = time ! b \<and>
               operation (map (\<lambda>k. data ! k) [a..<b - 1]) = Inr (values_col fr ! i)"
    if i: "i < length (values_col fr)" for i
  proof -
    let ?a = "fst (?W ! i)" and ?b = "snd (?W ! i)"
    have m: "?a < ?b" "?b < length time" "py_slice data (int ?a) (int ?b - 1) \<noteq> []" "?b \<le> ?f"
      using mem [OF i] by simp_all
    have sl: "py_slice data (int ?a) (int ?b - 1) = map (\<lambda>k. data ! k) [?a..<?b - 1]"
      using m(1,2) len by (intro py_slice_upt) simp_all
    have "[?a..<?b - 1] \<noteq> []" using sl m(3) by auto
    then have "?a < ?b - 1" by simp
    then have "?a + 1 < ?b" by linarith
    moreover have "operation (py_slice data (int ?a) (int ?b - 1)) = Inr (values_col fr ! i)"
      using rel i n by (simp add: list_all2_conv_all_nth)
    ultimately show ?thesis using m(2,4) sl i n ix by (auto simp: st en)
  qed
  have lens: "length (startTime fr) = length (values_col fr)"
    "length (endTime fr) = length (values_col fr)"
    using n by (simp_all add: st en)
  show ?thesis using loop fr lens span apart incr sub trail rec by blast
qed

text \<open>
  Eight samples with a window of 60 seconds: two records, and a trailing run that starts
  at position 6.
\<close>

theorem chunckData_windows_witness:
  "\<exists>s'. chunck_loop [0, 20, 40, 61, 62, 100, 125, 130] [0.8, 0.9, 1.0, 0.9, 0.8, 0.9, 0.8, 0.9] 60
           (returns nn50) chunck_init [0..<8] = Inr s' \<and>
        start_index s' = 6 \<and> start_time s' = [0, 61] \<and> end_time s' = [61, 125] \<and>
        values' s' = [1, 0]"
proof -
  have v: "valid_input [0, 20, 40, 61, 62, 100, 125, 130] [0.8, 0.9, 1.0, 0.9, 0.8, 0.9, 0.8, 0.9] 60"
    by (simp add: valid_input_def)
  have c: "chunckData [0, 20, 40, 61, 62, 100, 125, 130] [0.8, 0.9, 1.0, 0.9, 0.8, 0.9, 0.8, 0.9] 60
             (returns nn50) = Inr \<lparr>startTime = [0, 61], endTime = [61, 125], values_col = [1, 0]\<rparr>"
    by (simp add: chunckData_def chunck_init_def chunck_step_def py_slice_def returns_def nn50_def upt_rec)
  have e: "chunck_loop [0, 20, 40, 61, 62, 100, 125, 130] [0.8, 0.9, 1.0, 0.9, 0.8, 0.9, 0.8, 0.9] 60
           (returns nn50) chunck_init [0..<8] =
           Inr \<lparr>start_index = 6, values' = [1, 0], start_time = [0, 61], end_time = [61, 125]\<rparr>"
    by (simp add: chunck_init_def chunck_step_def py_slice_def returns_def nn50_def upt_rec)
  show ?thesis
    using chunckData_windows [OF v c] e by simp
qed

end
